theory Spec2Isabelle
  imports Complex_Main "HOL-Library.Char_ord" "HOL-Library.List_Lexorder"
begin

section \<open>Uzid: sortable identifiers from a timestamp and a random suffix\<close>

text \<open>
  A shallow embedding of \<^verbatim>\<open>src/index.ts\<close>. A JavaScript string is a \<^typ>\<open>string\<close>, one
  \<^typ>\<open>char\<close> for each code unit; the order on strings is the lexicographic order on code
  units, which is what \<^verbatim>\<open><\<close> and \<^verbatim>\<open>Array.prototype.sort()\<close> use on strings.
  A JavaScript number received from a caller is a \<^typ>\<open>real\<close>, so that
  \<^verbatim>\<open>Number.isInteger\<close> has something to decide. A number that the class computes is a
  double holding an integer, a \<^verbatim>\<open>NaN\<close> or an infinity: the arithmetic of the class on
  such numbers (\<^verbatim>\<open>n / base\<close>, \<^verbatim>\<open>out * base + value\<close>) rounds to the nearest double, ties
  to even, as the language does; it is exact below \<open>2\<^sup>5\<^sup>3\<close>, where every time value of a
  \<^verbatim>\<open>Date\<close> lies, and not above.
\<close>

subsection \<open>Data\<close>

text \<open>The four messages that the class throws, and the one of \<^verbatim>\<open>fromBaseString\<close>.\<close>

datatype error =
    InvalidPrecision    \<comment> \<open>\<^verbatim>\<open>Precision must be "ms" if specified\<close>\<close>
  | InvalidBase         \<comment> \<open>\<^verbatim>\<open>Base must be either 36 or 62\<close>\<close>
  | InvalidLength       \<comment> \<open>\<^verbatim>\<open>Length must be a non-negative integer between 0 and 20\<close>\<close>
  | InvalidCount        \<comment> \<open>\<^verbatim>\<open>Count must be a positive integer greater than 1\<close>\<close>
  | InvalidCharacter char   \<comment> \<open>\<^verbatim>\<open>Invalid character '...' for base ...\<close>\<close>

text \<open>The type \<^verbatim>\<open>36 | 62\<close> of the field \<^verbatim>\<open>base\<close> and of the parameter \<^verbatim>\<open>base\<close>.\<close>

datatype base = B36 | B62

fun radix :: "base \<Rightarrow> nat" where
  "radix B36 = 36"
| "radix B62 = 62"

datatype number = NaN | Num int | Infinity | NegInfinity

text \<open>
  A value of the language, as the option \<^verbatim>\<open>base\<close> can be at run time whatever its
  declared type says: \<open>JUndefined\<close> when the option is absent; a number is finite, a
  \<^verbatim>\<open>NaN\<close> or an infinity; a symbol and an object carry nothing that the constructor
  looks at. \<open>truthy\<close> is the conversion to a boolean that \<^verbatim>\<open>||\<close> applies.
\<close>

datatype jsvalue =
    JUndefined | JNull | JBoolean bool
  | JNumber real | JNaN | JInfinity | JNegInfinity
  | JBigInt int | JString string | JSymbol | JObject

fun truthy :: "jsvalue \<Rightarrow> bool" where
  "truthy JUndefined = False"
| "truthy JNull = False"
| "truthy (JBoolean b) = b"
| "truthy (JNumber x) = (x \<noteq> 0)"
| "truthy JNaN = False"
| "truthy JInfinity = True"
| "truthy JNegInfinity = True"
| "truthy (JBigInt k) = (k \<noteq> 0)"
| "truthy (JString s) = (s \<noteq> [])"
| "truthy JSymbol = True"
| "truthy JObject = True"

text \<open>
  \<^verbatim>\<open>UzidOptions\<close>: every field is optional (\<open>None\<close>, and \<open>JUndefined\<close> for the base,
  is \<^verbatim>\<open>undefined\<close>). The declared types of \<^verbatim>\<open>base\<close> and \<^verbatim>\<open>precision\<close> are \<^verbatim>\<open>36 | 62\<close> and
  \<^verbatim>\<open>"ms"\<close>; the constructor checks them at run time, so the model takes any value for the
  base and any string for the precision.
\<close>

record UzidOptions =
  opt_prefix :: "string option"
  opt_base :: jsvalue
  opt_length :: "real option"
  opt_precision :: "string option"

record Uzid =
  prefix :: string
  base :: base
  length_u :: nat
  chars :: string
  precision :: "string option"

text \<open>
  The two sources of the outside world: the successive results of \<^verbatim>\<open>Date.now()\<close>
  (milliseconds elapsed since the epoch) and of \<^verbatim>\<open>Math.random()\<close>. A call reads the
  head of its sequence and leaves the tail.
\<close>

record world =
  clock :: "nat \<Rightarrow> nat"
  rnd :: "nat \<Rightarrow> real"

definition Date_now :: "world \<Rightarrow> nat \<times> world" where
  "Date_now w = (clock w 0, w\<lparr>clock := (\<lambda>i. clock w (Suc i))\<rparr>)"

definition Math_random :: "world \<Rightarrow> real \<times> world" where
  "Math_random w = (rnd w 0, w\<lparr>rnd := (\<lambda>i. rnd w (Suc i))\<rparr>)"

subsection \<open>The arithmetic of doubles on integers\<close>

text \<open>The number of binary digits of a natural number.\<close>

fun bitlen :: "nat \<Rightarrow> nat" where
  "bitlen n = (if n = 0 then 0 else Suc (bitlen (n div 2)))"

declare bitlen.simps [simp del]

text \<open>The integer nearest to \<open>num / den\<close>, the even one of two that are as near.\<close>

definition rne :: "nat \<Rightarrow> nat \<Rightarrow> nat" where
  "rne num den =
     (let k = num div den; r = num mod den in
      if 2 * r < den then k
      else if den < 2 * r then k + 1
      else if even k then k else k + 1)"

text \<open>
  The double for an integer \<open>z\<close>: \<open>z\<close> itself below \<open>2\<^sup>5\<^sup>3\<close> in magnitude; beyond, \<open>z\<close>
  rounded to 53 binary digits, and an infinity from \<open>2\<^sup>1\<^sup>0\<^sup>2\<^sup>4\<close> on.
\<close>

definition f64 :: "int \<Rightarrow> number" where
  "f64 z =
     (if \<bar>z\<bar> < 9007199254740992 then Num z
      else let a = nat \<bar>z\<bar>; u = 2 ^ (bitlen a - 53); m = rne a u * u in
        if 1024 < bitlen m then (if z < 0 then NegInfinity else Infinity)
        else Num (if z < 0 then - int m else int m))"

text \<open>\<^verbatim>\<open>x * k\<close> and \<^verbatim>\<open>x + k\<close> for a number \<open>x\<close> and an integer \<open>k\<close>, \<open>k > 0\<close> in the product.\<close>

definition mul_number :: "number \<Rightarrow> int \<Rightarrow> number" where
  "mul_number x k = (case x of Num t \<Rightarrow> f64 (t * k) | _ \<Rightarrow> x)"

definition add_number :: "number \<Rightarrow> int \<Rightarrow> number" where
  "add_number x k = (case x of Num t \<Rightarrow> f64 (t + k) | _ \<Rightarrow> x)"

text \<open>
  \<^verbatim>\<open>Math.floor(n / b)\<close> for doubles that hold the natural numbers \<open>n\<close> and \<open>b\<close>, with
  \<open>1 \<le> b < 2\<^sup>5\<^sup>3\<close>: the quotient, which lies between \<open>2\<^sup>L\<^sup>-\<^sup>1\<close> and \<open>2\<^sup>L\<close> for the number
  \<open>L\<close> of binary digits of its integer part, is rounded to a multiple of \<open>2\<^sup>L\<^sup>-\<^sup>5\<^sup>3\<close>, and
  then floored. A quotient below 1 stays below 1.
\<close>

definition floor_div :: "nat \<Rightarrow> nat \<Rightarrow> nat" where
  "floor_div n b =
     (if n < b then 0
      else let L = bitlen (n div b) in
        if L \<le> 53 then rne (n * 2 ^ (53 - L)) b div 2 ^ (53 - L)
        else rne n (b * 2 ^ (L - 53)) * 2 ^ (L - 53))"

subsection \<open>Built-ins of the language\<close>

definition isInteger :: "real \<Rightarrow> bool" where
  "isInteger x = (of_int \<lfloor>x\<rfloor> = x)"

text \<open>\<^verbatim>\<open>s[i]\<close> used in a concatenation: out of range it is \<^verbatim>\<open>undefined\<close>, printed so.\<close>

definition char_at :: "string \<Rightarrow> nat \<Rightarrow> string" where
  "char_at s i = (if i < length s then [s ! i] else ''undefined'')"

definition startsWith :: "string \<Rightarrow> string \<Rightarrow> bool" where
  "startsWith s p = (take (length p) s = p)"

text \<open>\<^verbatim>\<open>s.slice(-n)\<close> and \<^verbatim>\<open>s.slice(0, -n)\<close> for \<open>n > 0\<close>.\<close>

definition slice_last :: "string \<Rightarrow> nat \<Rightarrow> string" where
  "slice_last s n = drop (length s - n) s"

definition slice_but_last :: "string \<Rightarrow> nat \<Rightarrow> string" where
  "slice_but_last s n = take (length s - n) s"

definition digits36 :: string where
  "digits36 = ''0123456789abcdefghijklmnopqrstuvwxyz''"

text \<open>
  \<^verbatim>\<open>num.toString(36)\<close> on an integer: the digits \<^verbatim>\<open>0-9a-z\<close>, the most significant
  first, no leading zero, a minus sign before a negative number. This is what the
  built-in prints for a safe integer, below \<open>2\<^sup>5\<^sup>3\<close> in magnitude. From there on the language
  leaves the digits to the implementation, which prints an approximation; the function
  goes on with the exact digits, and what is stated of the round trip below is stated of
  safe integers.
\<close>

function toString36_nat :: "nat \<Rightarrow> string" where
  "toString36_nat n =
     (if n < 36 then [digits36 ! n] else toString36_nat (n div 36) @ [digits36 ! (n mod 36)])"
  by pat_completeness auto
termination
  by (relation "measure id") auto

declare toString36_nat.simps [simp del]

definition toString36 :: "int \<Rightarrow> string" where
  "toString36 num = (if num < 0 then CHR ''-'' # toString36_nat (nat (- num)) else toString36_nat (nat num))"

text \<open>
  \<^verbatim>\<open>parseInt(str, 36)\<close>: leading white space is skipped (of the white space of the
  language, the code units that a \<^typ>\<open>char\<close> can hold), then an optional sign, then the
  longest run of digits of radix 36 is read, letters in either case; with no digit the
  result is \<^verbatim>\<open>NaN\<close>, otherwise the double for the integer read (the language lets an
  implementation approximate that integer after its twentieth significant digit, far
  beyond the safe integers).
\<close>

definition isWhiteSpace :: "char \<Rightarrow> bool" where
  "isWhiteSpace c = (of_char c \<in> {9, 10, 11, 12, 13, 32, 160 :: nat})"

definition digitValue36 :: "char \<Rightarrow> nat option" where
  "digitValue36 c =
     (let k = (of_char c :: nat) in
      if 48 \<le> k \<and> k \<le> 57 then Some (k - 48)
      else if 97 \<le> k \<and> k \<le> 122 then Some (k - 87)
      else if 65 \<le> k \<and> k \<le> 90 then Some (k - 55)
      else None)"

definition parseInt36 :: "string \<Rightarrow> number" where
  "parseInt36 str =
     (let s = dropWhile isWhiteSpace str;
          sign = (case s of c # _ \<Rightarrow> if c = CHR ''-'' then - 1 else (1::int) | [] \<Rightarrow> 1);
          s' = (case s of c # r \<Rightarrow> if c = CHR ''-'' \<or> c = CHR ''+'' then r else s | [] \<Rightarrow> s);
          z = takeWhile (\<lambda>c. digitValue36 c \<noteq> None) s'
      in if z = [] then NaN
         else f64 (sign * int (foldl (\<lambda>a c. a * 36 + the (digitValue36 c)) 0 z)))"

text \<open>\<^verbatim>\<open>s.indexOf(c)\<close> for one code unit: the first position, \<open>None\<close> for \<open>-1\<close>.\<close>

fun indexOf :: "string \<Rightarrow> char \<Rightarrow> nat option" where
  "indexOf [] c = None"
| "indexOf (x # xs) c = (if x = c then Some 0 else map_option Suc (indexOf xs c))"

text \<open>
  \<^verbatim>\<open>!isNaN(new Date(v).getTime())\<close>: a time value is kept when it is finite and at most
  \<open>8.64 \<times> 10\<^sup>1\<^sup>5\<close> in magnitude.
\<close>

definition validDate :: "number \<Rightarrow> bool" where
  "validDate v = (case v of Num t \<Rightarrow> \<bar>t\<bar> \<le> 8640000000000000 | _ \<Rightarrow> False)"

subsection \<open>The class\<close>

text \<open>
  The constructor. \<^verbatim>\<open>options.base || 36\<close> takes the default for every falsy value, \<open>0\<close>
  and \<^verbatim>\<open>NaN\<close> among the numbers; \<^verbatim>\<open>options.length ?? 4\<close> takes it for \<^verbatim>\<open>undefined\<close> only;
  the test of the precision passes a falsy value, the empty string among the strings.
  \<^verbatim>\<open>!==\<close> holds of every value but the number compared with.
\<close>

definition Uzid_new :: "UzidOptions \<Rightarrow> error + Uzid" where
  "Uzid_new options =
     (let p = (case opt_prefix options of None \<Rightarrow> '''' | Some s \<Rightarrow> if s = '''' then '''' else s);
          b = (if truthy (opt_base options) then opt_base options else JNumber 36);
          l = (case opt_length options of None \<Rightarrow> 4 | Some v \<Rightarrow> v)
      in if (case opt_precision options of None \<Rightarrow> False | Some s \<Rightarrow> s \<noteq> '''' \<and> s \<noteq> ''ms'')
         then Inl InvalidPrecision
         else if b \<noteq> JNumber 36 \<and> b \<noteq> JNumber 62 then Inl InvalidBase
         else if \<not> isInteger l \<or> l < 0 \<or> l > 20 then Inl InvalidLength
         else Inr \<lparr>prefix = p,
                   base = (if b = JNumber 62 then B62 else B36),
                   length_u = nat \<lfloor>l\<rfloor>,
                   chars = digits36 @ (if b = JNumber 62 then ''ABCDEFGHIJKLMNOPQRSTUVWXYZ'' else ''''),
                   precision = opt_precision options\<rparr>)"

text \<open>
  The loop of \<^verbatim>\<open>toBaseString\<close>: \<^verbatim>\<open>n % base\<close> is exact, \<^verbatim>\<open>Math.floor(n / base)\<close> is the
  floor of a rounded quotient. The loop ends because that is less than \<open>n\<close>: it is at
  most twice the integer quotient.
\<close>

function toBaseString_loop :: "Uzid \<Rightarrow> base \<Rightarrow> int \<Rightarrow> string \<Rightarrow> string" where
  "toBaseString_loop g b n out =
     (if n > 0
      then toBaseString_loop g b (int (floor_div (nat n) (radix b)))
             (char_at (chars g) (nat (n mod int (radix b))) @ out)
      else out)"
  by pat_completeness auto
termination
proof (relation "measure (\<lambda>(g, b, n, out). nat n)")
  show "wf (measure (\<lambda>(g :: Uzid, b :: base, n :: int, out :: string). nat n))"
    by simp
next
  fix g :: Uzid and b :: base and n :: int and out :: string
  assume n: "0 < n"
  define a R q where "a = nat n" and "R = radix b" and "q = a div R"
  define L where "L = bitlen q"
  have R: "36 \<le> R"
    unfolding R_def by (cases b) simp_all
  have a: "0 < a"
    using n by (simp add: a_def)
  have up: "rne x y \<le> x div y + 1" for x y
    by (simp add: rne_def Let_def)
  have digits: "2 ^ bitlen k \<le> 2 * k" if "0 < k" for k
    using that
  proof (induction k rule: bitlen.induct)
    case (1 k)
    show ?case
    proof (cases "k div 2 = 0")
      case True
      with "1.prems" have k: "k = Suc 0"
        by (simp add: div_eq_0_iff)
      have "bitlen (Suc 0) = Suc 0"
        by (simp add: bitlen.simps [of "Suc 0"] bitlen.simps [of 0])
      with k show ?thesis by simp
    next
      case False
      with 1 have "2 ^ bitlen (k div 2) \<le> 2 * (k div 2)"
        by simp
      also have "\<dots> \<le> k" by simp
      finally show ?thesis
        using "1.prems" by (subst bitlen.simps) simp
    qed
  qed
  have "floor_div a R < a"
  proof (cases "a < R")
    case True
    with a show ?thesis
      by (simp add: floor_div_def)
  next
    case False
    then have q: "0 < q"
      using R by (simp add: q_def div_greater_zero_iff)
    have qa: "2 * q < a"
    proof -
      have "36 * q \<le> R * q"
        using R by (rule mult_le_mono1)
      also have "\<dots> \<le> a"
        by (simp add: q_def)
      finally show ?thesis
        using q by simp
    qed
    have "floor_div a R \<le> 2 * q"
    proof (cases "L \<le> 53")
      case True
      define m where "m = (2::nat) ^ (53 - L)"
      have m: "0 < m"
        by (simp add: m_def)
      have "rne (a * m) R div m \<le> ((a * m) div R + 1) div m"
        by (intro div_le_mono up)
      also have "\<dots> \<le> ((a * m) div R + m) div m"
        using m by (intro div_le_mono) simp
      also have "\<dots> = (a * m) div R div m + 1"
        using m by simp
      also have "(a * m) div R div m = (a * m) div (R * m)"
        by (simp add: div_mult2_eq)
      also have "\<dots> = q"
        using m by (simp add: q_def)
      finally have "rne (a * m) R div m \<le> 2 * q"
        using q by simp
      with True False show ?thesis
        by (simp add: floor_div_def Let_def m_def L_def q_def)
    next
      case large: False
      define u where "u = (2::nat) ^ (L - 53)"
      have "u * 2 ^ 53 = 2 ^ (L - 53 + 53)"
        unfolding u_def by (simp only: power_add)
      also have "L - 53 + 53 = L"
        using large by simp
      also have "(2::nat) ^ L \<le> 2 * q"
        unfolding L_def using q by (rule digits)
      finally have "u * 9007199254740992 \<le> 2 * q"
        by simp
      then have u: "u \<le> q"
        by linarith
      have "rne a (R * u) * u \<le> (a div (R * u) + 1) * u"
        by (intro mult_le_mono1 up)
      also have "\<dots> = q div u * u + u"
        by (simp add: div_mult2_eq q_def)
      also have "\<dots> \<le> q + u"
        by simp
      also have "\<dots> \<le> 2 * q"
        using u by simp
      finally show ?thesis
        using large False by (simp add: floor_div_def Let_def u_def L_def q_def)
    qed
    with qa show ?thesis
      by simp
  qed
  then show "((g, b, int (floor_div (nat n) (radix b)),
               char_at (chars g) (nat (n mod int (radix b))) @ out),
              (g, b, n, out)) \<in> measure (\<lambda>(g, b, n, out). nat n)"
    by (simp add: a_def R_def)
qed

declare toBaseString_loop.simps [simp del]

definition toBaseString :: "Uzid \<Rightarrow> int \<Rightarrow> base \<Rightarrow> string" where
  "toBaseString g num b =
     (if b = B36 then toString36 num
      else if num = 0 then ''0''
      else toBaseString_loop g b num '''')"

text \<open>The loop of \<^verbatim>\<open>fromBaseString\<close>: the product and the sum are each rounded.\<close>

fun fromBaseString_loop :: "Uzid \<Rightarrow> base \<Rightarrow> string \<Rightarrow> number \<Rightarrow> error + number" where
  "fromBaseString_loop g b [] out = Inr out"
| "fromBaseString_loop g b (c # str) out =
     (case indexOf (chars g) c of
        None \<Rightarrow> Inl (InvalidCharacter c)
      | Some v \<Rightarrow>
          fromBaseString_loop g b str (add_number (mul_number out (int (radix b))) (int v)))"

definition fromBaseString :: "Uzid \<Rightarrow> string \<Rightarrow> base \<Rightarrow> error + number" where
  "fromBaseString g str b =
     (if b = B36 then Inr (parseInt36 str) else fromBaseString_loop g b str (Num 0))"

function random_loop :: "Uzid \<Rightarrow> nat \<Rightarrow> string \<Rightarrow> world \<Rightarrow> string \<times> world" where
  "random_loop g i s w =
     (if i < length_u g
      then (case Math_random w of (r, w') \<Rightarrow>
              random_loop g (Suc i) (s @ char_at (chars g) (nat \<lfloor>r * of_nat (length (chars g))\<rfloor>)) w')
      else (s, w))"
  by pat_completeness auto
termination
  by (relation "measure (\<lambda>(g, i, s, w). length_u g - i)") auto

declare random_loop.simps [simp del]

text \<open>
  In \<^verbatim>\<open>random\<close> the product of the draw and the length of the alphabet is taken in the
  reals. The product of doubles is that product rounded, which at rare draws reaches the
  next integer and makes the source take the next character; no claim below depends on
  which character of the alphabet a draw selects.
\<close>

definition random :: "Uzid \<Rightarrow> world \<Rightarrow> string \<times> world" where
  "random g w = random_loop g 0 '''' w"

definition single :: "Uzid \<Rightarrow> world \<Rightarrow> string \<times> world" where
  "single g w =
     (case Date_now w of (now, w1) \<Rightarrow>
        let ts = int (floor_div now (if precision g = Some ''ms'' then 1 else 1000)) in
        case random g w1 of (r, w2) \<Rightarrow>
          (prefix g @ toBaseString g ts (base g) @ r, w2))"

text \<open>
  The argument of \<^verbatim>\<open>verify\<close> is a string by its type, so the test of \<^verbatim>\<open>typeof id\<close> has no
  branch here; the \<^verbatim>\<open>catch\<close> is the branch \<open>Inl\<close>.
\<close>

definition verify :: "Uzid \<Rightarrow> string \<Rightarrow> bool" where
  "verify g ident =
     (if length ident = 0 \<or> \<not> startsWith ident (prefix g) then False
      else let withoutPrefix = drop (length (prefix g)) ident in
        if length withoutPrefix = 0 then False
        else if \<exists>c \<in> set withoutPrefix. c \<notin> set (chars g) then False
        else let randomPart = (if length_u g = 0 then '''' else slice_last withoutPrefix (length_u g)) in
          if length randomPart \<noteq> length_u g then False
          else let timestampPart =
                     (if length_u g = 0 then withoutPrefix else slice_but_last withoutPrefix (length_u g)) in
            case fromBaseString g timestampPart (base g) of
              Inl e \<Rightarrow> False
            | Inr v \<Rightarrow> validDate (mul_number v (if precision g = Some ''ms'' then 1 else 1000)))"

text \<open>
  \<^verbatim>\<open>Set<string>\<close> keeps its members in the order of their insertion: a list without
  repetition, \<^verbatim>\<open>add\<close> appending what is new.
\<close>

definition set_add :: "string list \<Rightarrow> string \<Rightarrow> string list" where
  "set_add ids x = (if x \<in> set ids then ids else ids @ [x])"

partial_function (option) multiple_loop ::
    "Uzid \<Rightarrow> real \<Rightarrow> string list \<Rightarrow> world \<Rightarrow> (string list \<times> world) option" where
  "multiple_loop g count ids w =
     (if of_nat (length ids) < count
      then (case single g w of (x, w') \<Rightarrow> multiple_loop g count (set_add ids x) w')
      else Some (ids, w))"

text \<open>
  The result of a call that may throw and may not return: \<open>None\<close> when the loop never
  ends, otherwise the error or the array, with the world the call leaves.
\<close>

definition multiple :: "Uzid \<Rightarrow> real \<Rightarrow> world \<Rightarrow> ((error + string list) \<times> world) option" where
  "multiple g count w =
     (if \<not> isInteger count \<or> count < 2 then Some (Inl InvalidCount, w)
      else (case multiple_loop g count [] w of
              None \<Rightarrow> None
            | Some (ids, w') \<Rightarrow> Some (Inr (sort ids), w')))"

datatype generated = One string | Many "string list"

definition generate :: "Uzid \<Rightarrow> real option \<Rightarrow> world \<Rightarrow> ((error + generated) \<times> world) option" where
  "generate g count w =
     (case count of
        None \<Rightarrow> (case single g w of (x, w') \<Rightarrow> Some (Inr (One x), w'))
      | Some c \<Rightarrow> (case multiple g c w of
                    None \<Rightarrow> None
                  | Some (Inl e, w') \<Rightarrow> Some (Inl e, w')
                  | Some (Inr ids, w') \<Rightarrow> Some (Inr (Many ids), w')))"

subsection \<open>Assumptions on the outside world\<close>

text \<open>\<^verbatim>\<open>Math.random()\<close> returns a number of the interval from 0 to 1, 1 excluded.\<close>

definition draws_ok :: "world \<Rightarrow> bool" where
  "draws_ok w = (\<forall>i. 0 \<le> rnd w i \<and> rnd w i < 1)"


subsection \<open>Concrete generators and worlds\<close>

definition opts_default :: UzidOptions where
  "opts_default = \<lparr>opt_prefix = None, opt_base = JUndefined, opt_length = None,
     opt_precision = None\<rparr>"

definition gen_default :: Uzid where
  "gen_default = \<lparr>prefix = '''', base = B36, length_u = 4,
     chars = ''0123456789abcdefghijklmnopqrstuvwxyz'', precision = None\<rparr>"

definition opts_srv :: UzidOptions where
  "opts_srv = \<lparr>opt_prefix = Some ''srv1'', opt_base = JNumber 62, opt_length = Some 2,
     opt_precision = Some ''ms''\<rparr>"

definition gen_srv :: Uzid where
  "gen_srv = \<lparr>prefix = ''srv1'', base = B62, length_u = 2,
     chars = ''0123456789abcdefghijklmnopqrstuvwxyzABCDEFGHIJKLMNOPQRSTUVWXYZ'',
     precision = Some ''ms''\<rparr>"

definition gen_test :: Uzid where
  "gen_test = gen_default\<lparr>prefix := ''test''\<rparr>"

definition gen_wrong :: Uzid where
  "gen_wrong = gen_default\<lparr>prefix := ''wrong''\<rparr>"

definition gen_ab :: Uzid where
  "gen_ab = gen_default\<lparr>prefix := ''ab''\<rparr>"

definition gen_a :: Uzid where
  "gen_a = gen_default\<lparr>prefix := ''a''\<rparr>"

text \<open>A clock that advances by one millisecond at each reading, and the draws \<open>1/2, 1/3, \<dots>\<close>\<close>

definition world_ms :: world where
  "world_ms = \<lparr>clock = (\<lambda>i. 1699999999991 + i), rnd = (\<lambda>i. 1 / of_nat (i + 2))\<rparr>"

section \<open>The arithmetic of doubles\<close>

lemma f64_small: "\<bar>z\<bar> < 9007199254740992 \<Longrightarrow> f64 z = Num z"
  by (simp add: f64_def)

lemma bitlen_lower: "0 < q \<Longrightarrow> 2 ^ bitlen q \<le> 2 * q"
proof (induction q rule: bitlen.induct)
  case (1 n)
  show ?case
  proof (cases "n div 2 = 0")
    case True
    with "1.prems" have n: "n = Suc 0" by (simp add: div_eq_0_iff)
    have "bitlen (Suc 0) = Suc 0"
      by (simp add: bitlen.simps [of "Suc 0"] bitlen.simps [of 0])
    with n show ?thesis
      by simp
  next
    case False
    with 1 have "2 ^ bitlen (n div 2) \<le> 2 * (n div 2)"
      by simp
    also have "\<dots> \<le> n" by simp
    finally show ?thesis
      using "1.prems" by (subst bitlen.simps) simp
  qed
qed

lemma bitlen_le: "q < 2 ^ k \<Longrightarrow> bitlen q \<le> k"
proof (cases "q = 0")
  case True
  then show ?thesis by (simp add: bitlen.simps)
next
  case False
  assume "q < 2 ^ k"
  moreover from False have "2 ^ bitlen q \<le> 2 * q"
    by (intro bitlen_lower) simp
  ultimately have "(2::nat) ^ bitlen q < 2 ^ Suc k"
    by simp
  then have "bitlen q < Suc k"
    by (simp only: power_strict_increasing_iff rel_simps)
  then show ?thesis by simp
qed

lemma rne_bounds: "num div den \<le> rne num den" "rne num den \<le> num div den + 1"
  by (simp_all add: rne_def Let_def)


lemma rne_scaled:
  assumes b: "0 < b" and m: "b < 2 * m"
  shows "rne (n * m) b div m = n div b"
proof -
  define q r k rr where "q = n div b" and "r = n mod b"
    and "k = (n * m) div b" and "rr = (n * m) mod b"
  have m0: "0 < m" using b m by simp
  have n: "n = q * b + r" by (simp add: q_def r_def)
  have r: "r < b" using b by (simp add: r_def)
  have nm: "k * b + rr = n * m" by (simp add: k_def rr_def)
  have lo: "q * m \<le> k"
  proof -
    have "q * b \<le> n" by (simp add: n)
    then have "q * b * m \<le> n * m" by (rule mult_le_mono1)
    then have "(q * m) * b \<le> n * m" by (simp only: mult.assoc mult.commute [of b m])
    then show ?thesis
      unfolding k_def using b by (simp add: less_eq_div_iff_mult_less_eq)
  qed
  have "n < (q + 1) * b"
    using r by (simp add: n)
  then have "n * m < (q + 1) * b * m"
    using m0 by (rule mult_less_mono1)
  then have "n * m < ((q + 1) * m) * b"
    by (simp only: mult.assoc mult.commute [of b m])
  then have hi: "k < (q + 1) * m"
    unfolding k_def using b by (simp add: div_less_iff_less_mult)
  have up: "rne (n * m) b < (q + 1) * m"
  proof (cases "2 * rr < b")
    case True
    with hi show ?thesis by (simp add: rne_def Let_def k_def rr_def)
  next
    case False
    have "k + 1 \<noteq> (q + 1) * m"
    proof
      assume e: "k + 1 = (q + 1) * m"
      have "(k + 1) * b + rr = n * m + b"
        using nm by (simp add: algebra_simps)
      then have "(q + 1) * m * b + rr = (q * b + r) * m + b"
        unfolding e n .
      then have "m * b + rr = r * m + b"
        by (simp add: algebra_simps)
      moreover have "r * m + m \<le> b * m"
      proof -
        from r have "r + 1 \<le> b" by simp
        then have "(r + 1) * m \<le> b * m" by (rule mult_le_mono1)
        then show ?thesis by (simp add: algebra_simps)
      qed
      ultimately have "rr + m \<le> b"
        by (simp add: algebra_simps)
      with m have "2 * rr < b" by simp
      with False show False ..
    qed
    with hi have "k + 1 < (q + 1) * m" by simp
    with rne_bounds(2) [of "n * m" b] show ?thesis by (simp add: k_def)
  qed
  from lo rne_bounds(1) [of "n * m" b] have "q * m \<le> rne (n * m) b" by (simp add: k_def)
  then have "q \<le> rne (n * m) b div m"
    using m0 by (simp add: less_eq_div_iff_mult_less_eq)
  moreover from up have "rne (n * m) b div m < q + 1"
    using m0 by (simp add: div_less_iff_less_mult)
  ultimately show ?thesis by (simp add: q_def)
qed

text \<open>Below \<open>2\<^sup>5\<^sup>3\<close> the quotient of doubles, floored, is the integer quotient.\<close>

lemma floor_div_exact:
  assumes n: "n < 9007199254740992" and b: "0 < b"
  shows "floor_div n b = n div b"
proof (cases "n < b")
  case True
  then show ?thesis by (simp add: floor_div_def)
next
  case False
  let ?q = "n div b"
  let ?L = "bitlen ?q"
  have q0: "0 < ?q"
    using False b by (simp add: div_greater_zero_iff)
  have "?q \<le> n" by simp
  from this n have "?q < 9007199254740992" by (rule le_less_trans)
  then have "?q < 2 ^ 53" by simp
  then have L: "?L \<le> 53" by (rule bitlen_le)
  have P: "2 ^ ?L * 2 ^ (53 - ?L) = (9007199254740992::nat)"
  proof -
    have "2 ^ ?L * 2 ^ (53 - ?L) = (2::nat) ^ (?L + (53 - ?L))"
      by (simp only: power_add)
    also have "?L + (53 - ?L) = 53"
      using L by simp
    finally show ?thesis by simp
  qed
  have "2 ^ ?L * b \<le> 2 * ?q * b"
    using bitlen_lower [OF q0] by (rule mult_le_mono1)
  also have "\<dots> = 2 * (?q * b)"
    by simp
  also have "\<dots> \<le> 2 * n"
    by (intro mult_le_mono2) simp
  also have "\<dots> < 2 * (2 ^ ?L * 2 ^ (53 - ?L))"
    using n by (simp only: P)
  also have "\<dots> = 2 ^ ?L * (2 * 2 ^ (53 - ?L))"
    by (simp only: ac_simps)
  finally have "b < 2 * 2 ^ (53 - ?L)"
    by simp
  with b have "rne (n * 2 ^ (53 - ?L)) b div 2 ^ (53 - ?L) = n div b"
    by (rule rne_scaled)
  with False L show ?thesis
    by (simp add: floor_div_def Let_def)
qed




section \<open>Evaluation on concrete inputs\<close>

lemmas build_simps = Uzid_new_def isInteger_def digits36_def Let_def

lemmas encode_simps = toBaseString_def toBaseString_loop.simps toString36_def toString36_nat.simps
  digits36_def char_at_def floor_div_exact

lemmas single_simps = single_def Date_now_def Math_random_def random_def random_loop.simps
  encode_simps Let_def

lemmas verify_simps = verify_def startsWith_def slice_last_def slice_but_last_def fromBaseString_def
  validDate_def mul_number_def add_number_def f64_small parseInt36_def digitValue36_def
  isWhiteSpace_def Let_def

lemma default_built: "Uzid_new opts_default = Inr gen_default"
  by (simp add: build_simps opts_default_def gen_default_def)

lemma srv_built: "Uzid_new opts_srv = Inr gen_srv"
  by (simp add: build_simps opts_srv_def gen_srv_def)

lemma draws_ok_world_ms: "draws_ok world_ms"
  by (simp add: draws_ok_def world_ms_def)


section \<open>The radix converter\<close>

subsection \<open>Base 36: the built-ins\<close>

lemma digitValue36_digits36: "map digitValue36 digits36 = map Some [0..<36]"
  by code_simp

lemma length_digits36: "length digits36 = 36"
  by (simp add: digits36_def)

lemma digitValue36_nth: "n < 36 \<Longrightarrow> digitValue36 (digits36 ! n) = Some n"
proof -
  assume n: "n < 36"
  then have "digitValue36 (digits36 ! n) = map digitValue36 digits36 ! n"
    by (simp add: length_digits36)
  also have "\<dots> = Some n"
    using n by (simp add: digitValue36_digits36 del: upt.simps)
  finally show ?thesis .
qed

lemma digit_not_special:
  "digitValue36 c \<noteq> None \<Longrightarrow> \<not> isWhiteSpace c \<and> c \<noteq> CHR ''-'' \<and> c \<noteq> CHR ''+''"
  by (auto simp: digitValue36_def isWhiteSpace_def Let_def split: if_splits)

lemma toString36_nat_digits: "\<forall>c \<in> set (toString36_nat n). digitValue36 c \<noteq> None"
proof (induction n rule: toString36_nat.induct)
  case (1 n)
  show ?case
  proof (cases "n < 36")
    case True
    then show ?thesis
      by (subst toString36_nat.simps) (simp add: digitValue36_nth)
  next
    case False
    have "n mod 36 < 36" by simp
    with False 1 show ?thesis
      by (subst toString36_nat.simps) (simp add: digitValue36_nth)
  qed
qed

lemma toString36_nat_not_Nil: "toString36_nat n \<noteq> []"
  by (subst toString36_nat.simps) simp

lemma toString36_nat_value:
  "foldl (\<lambda>a c. a * 36 + the (digitValue36 c)) 0 (toString36_nat n) = n"
proof (induction n rule: toString36_nat.induct)
  case (1 n)
  show ?case
  proof (cases "n < 36")
    case True
    then show ?thesis
      by (subst toString36_nat.simps) (simp add: digitValue36_nth)
  next
    case False
    have "n mod 36 < 36" by simp
    with False 1 show ?thesis
      by (subst toString36_nat.simps) (simp add: digitValue36_nth)
  qed
qed

text \<open>\<^verbatim>\<open>parseInt\<close> on a non-empty run of digits reads all of it.\<close>

lemma parseInt36_digits:
  assumes ne: "s \<noteq> []" and all: "\<forall>c \<in> set s. digitValue36 c \<noteq> None"
  shows "parseInt36 s = f64 (int (foldl (\<lambda>a c. a * 36 + the (digitValue36 c)) 0 s))"
proof -
  obtain c r where s: "s = c # r"
    using ne by (cases s) auto
  from all have c: "\<not> isWhiteSpace c \<and> c \<noteq> CHR ''-'' \<and> c \<noteq> CHR ''+''"
    by (simp add: s digit_not_special)
  have dw: "dropWhile isWhiteSpace s = s"
    using c by (simp add: s)
  have sign: "(case s of c # _ \<Rightarrow> if c = CHR ''-'' then - 1 else (1::int) | [] \<Rightarrow> 1) = 1"
    using c by (simp add: s)
  have rest: "(case s of c # r \<Rightarrow> if c = CHR ''-'' \<or> c = CHR ''+'' then r else s | [] \<Rightarrow> s) = s"
    using c by (simp add: s)
  have tw: "takeWhile (\<lambda>c. digitValue36 c \<noteq> None) s = s"
    using all by (simp only: takeWhile_eq_all_conv)
  show ?thesis
    unfolding parseInt36_def Let_def dw sign rest tw using ne by simp
qed

lemma parseInt36_toString36_nat: "parseInt36 (toString36_nat n) = f64 (int n)"
  using parseInt36_digits [OF toString36_nat_not_Nil toString36_nat_digits, of n]
  by (simp add: toString36_nat_value)

lemma toString36_nat_chars: "set (toString36_nat n) \<subseteq> set digits36"
proof (induction n rule: toString36_nat.induct)
  case (1 n)
  have "n mod 36 < length digits36"
    by (simp add: length_digits36)
  then have m: "digits36 ! (n mod 36) \<in> set digits36"
    by (rule nth_mem)
  show ?case
  proof (cases "n < 36")
    case True
    then have "digits36 ! n \<in> set digits36"
      by (intro nth_mem) (simp add: length_digits36)
    with True show ?thesis
      by (subst toString36_nat.simps) simp
  next
    case False
    with 1 m show ?thesis
      by (subst toString36_nat.simps) simp
  qed
qed

subsection \<open>What the constructor establishes\<close>

lemma Uzid_new_chars:
  assumes "Uzid_new options = Inr g"
  shows "distinct (chars g)" and "length (chars g) = radix (base g)"
    and "base g = B36 \<Longrightarrow> chars g = digits36"
  using assms
  by (auto simp: Uzid_new_def Let_def digits36_def split: if_splits)

lemma Uzid_new_chars_not_Nil: "Uzid_new options = Inr g \<Longrightarrow> chars g \<noteq> []"
  by (drule Uzid_new_chars(2)) (cases "base g"; auto)

lemma indexOf_zero:
  "indexOf (digits36 @ xs) CHR ''0'' = Some 0" "indexOf digits36 CHR ''0'' = Some 0"
  by (simp_all add: digits36_def)

subsection \<open>Base 62: the loops of the class\<close>

lemma indexOf_nth: "distinct xs \<Longrightarrow> i < length xs \<Longrightarrow> indexOf xs (xs ! i) = Some i"
proof (induction xs arbitrary: i)
  case Nil
  then show ?case by simp
next
  case (Cons x xs)
  then show ?case
    by (cases i) auto
qed

lemma radix_gt_1: "1 < int (radix b)"
  by (cases b) auto

lemma floor_div_radix:
  assumes "0 \<le> n" "n < 9007199254740992"
  shows "int (floor_div (nat n) (radix b)) = n div int (radix b)"
proof -
  have "0 < radix b" by (cases b) simp_all
  moreover have "nat n < 9007199254740992"
    using assms by simp
  ultimately have "floor_div (nat n) (radix b) = nat n div radix b"
    by (intro floor_div_exact)
  with assms(1) show ?thesis
    by (simp add: zdiv_int)
qed

text \<open>
  For a safe integer \<open>n\<close>, decoding what the loop wrote before \<open>out\<close> amounts to decoding
  \<open>out\<close> from \<open>n\<close>: no step of either loop rounds.
\<close>

lemma decode_encode_loop:
  "distinct (chars g) \<Longrightarrow> length (chars g) = radix b \<Longrightarrow> 0 \<le> n \<Longrightarrow> n < 9007199254740992 \<Longrightarrow>
    fromBaseString_loop g b (toBaseString_loop g b n out) (Num 0) =
    fromBaseString_loop g b out (Num n)"
proof (induction g b n out rule: toBaseString_loop.induct)
  case (1 g b n out)
  let ?R = "int (radix b)"
  show ?case
  proof (cases "n > 0")
    case True
    let ?m = "nat (n mod ?R)"
    have R: "1 < ?R" by (rule radix_gt_1)
    then have m: "?m < length (chars g)"
      using "1.prems"(2) by (simp add: nat_less_iff)
    have fd: "int (floor_div (nat n) (radix b)) = n div ?R"
      using "1.prems"(3,4) by (rule floor_div_radix)
    have q: "0 \<le> n div ?R"
      using True R by (simp add: pos_imp_zdiv_nonneg_iff)
    have "n div ?R < n"
      using True R by (simp add: int_div_less_self)
    with "1.prems"(4) have q': "n div ?R < 9007199254740992"
      by simp
    have nn: "0 \<le> n mod ?R"
      using R by simp
    then have le: "n div ?R * ?R \<le> n"
      using div_mult_mod_eq [of n ?R] by linarith
    have p: "mul_number (Num (n div ?R)) ?R = Num (n div ?R * ?R)"
      using q R le "1.prems"(4) by (simp add: mul_number_def f64_small)
    have s: "add_number (Num (n div ?R * ?R)) (n mod ?R) = Num n"
      using "1.prems"(3,4) by (simp add: add_number_def f64_small)
    have "fromBaseString_loop g b (toBaseString_loop g b n out) (Num 0) =
          fromBaseString_loop g b (toBaseString_loop g b (n div ?R) (char_at (chars g) ?m @ out)) (Num 0)"
      using True by (subst toBaseString_loop.simps) (simp add: fd)
    also have "\<dots> = fromBaseString_loop g b (char_at (chars g) ?m @ out) (Num (n div ?R))"
      using "1.IH" [OF True "1.prems"(1,2), unfolded fd, OF q q'] .
    also have "\<dots> = fromBaseString_loop g b out (Num n)"
      using m "1.prems"(1) nn by (simp add: char_at_def indexOf_nth p s)
    finally show ?thesis .
  next
    case False
    with "1.prems" have "n = 0" by simp
    then show ?thesis
      by (subst toBaseString_loop.simps) simp
  qed
qed

lemma toBaseString_loop_chars:
  "length (chars g) = radix b \<Longrightarrow> set out \<subseteq> set (chars g) \<Longrightarrow>
     set (toBaseString_loop g b n out) \<subseteq> set (chars g)"
proof (induction g b n out rule: toBaseString_loop.induct)
  case (1 g b n out)
  let ?R = "int (radix b)"
  show ?case
  proof (cases "n > 0")
    case True
    let ?m = "nat (n mod ?R)"
    have "1 < ?R" by (rule radix_gt_1)
    then have m: "?m < length (chars g)"
      using "1.prems"(1) by (simp add: nat_less_iff)
    then have "set (char_at (chars g) ?m @ out) \<subseteq> set (chars g)"
      using "1.prems"(2) by (simp add: char_at_def)
    from "1.IH" [OF True "1.prems"(1) this] True show ?thesis
      by (subst toBaseString_loop.simps) simp
  next
    case False
    with "1.prems"(2) show ?thesis
      by (subst toBaseString_loop.simps) simp
  qed
qed

subsection \<open>Both bases\<close>

lemma decode_encode:
  assumes g: "Uzid_new options = Inr g" and v: "0 \<le> v" and s: "v \<le> 9007199254740991"
  shows "fromBaseString g (toBaseString g v (base g)) (base g) = Inr (Num v)"
proof (cases "base g")
  case B36
  with v s show ?thesis
    by (simp add: fromBaseString_def toBaseString_def toString36_def parseInt36_toString36_nat
        f64_small)
next
  case B62
  have c: "distinct (chars g)" "length (chars g) = radix (base g)"
    using g by (rule Uzid_new_chars)+
  have z: "indexOf (chars g) CHR ''0'' = Some 0"
    using g by (auto simp: Uzid_new_def Let_def indexOf_zero split: if_splits)
  show ?thesis
  proof (cases "v = 0")
    case True
    with B62 z show ?thesis
      by (simp add: fromBaseString_def toBaseString_def mul_number_def add_number_def f64_small)
  next
    case False
    from s have "v < 9007199254740992" by simp
    with False B62 decode_encode_loop [OF c v, of "[]"] show ?thesis
      by (simp add: fromBaseString_def toBaseString_def)
  qed
qed

lemma toBaseString_chars:
  assumes g: "Uzid_new options = Inr g" and v: "0 \<le> v"
  shows "set (toBaseString g v (base g)) \<subseteq> set (chars g)"
proof (cases "base g")
  case B36
  with v Uzid_new_chars(3) [OF g] show ?thesis
    by (simp add: toBaseString_def toString36_def toString36_nat_chars)
next
  case B62
  have "CHR ''0'' \<in> set (chars g)"
    using g by (auto simp: Uzid_new_def Let_def digits36_def split: if_splits)
  with B62 Uzid_new_chars(2) [OF g] show ?thesis
    by (simp add: toBaseString_def toBaseString_loop_chars)
qed

lemma char_at_not_Nil: "char_at s i \<noteq> []"
  by (simp add: char_at_def)

lemma toBaseString_loop_length: "length out \<le> length (toBaseString_loop g b n out)"
proof (induction g b n out rule: toBaseString_loop.induct)
  case (1 g b n out)
  show ?case
  proof (cases "n > 0")
    case True
    from "1.IH" [OF True] True show ?thesis
      by (subst toBaseString_loop.simps) simp
  next
    case False
    then show ?thesis
      by (subst toBaseString_loop.simps) simp
  qed
qed

lemma toBaseString_not_Nil:
  assumes v: "0 \<le> v"
  shows "toBaseString g v b \<noteq> []"
proof (cases "b = B36 \<or> v = 0")
  case True
  with v show ?thesis
    by (auto simp: toBaseString_def toString36_def toString36_nat_not_Nil)
next
  case False
  let ?c = "char_at (chars g) (nat (v mod int (radix b)))"
  from False v have "0 < v" by simp
  then have "toBaseString_loop g b v [] =
      toBaseString_loop g b (int (floor_div (nat v) (radix b))) (?c @ [])"
    by (subst toBaseString_loop.simps) simp
  moreover have "length (?c @ []) \<le>
      length (toBaseString_loop g b (int (floor_div (nat v) (radix b))) (?c @ []))"
    by (rule toBaseString_loop_length)
  moreover have "0 < length (?c @ [])"
    using char_at_not_Nil [of "chars g" "nat (v mod int (radix b))"] by simp
  ultimately have "toBaseString_loop g b v [] \<noteq> []"
    by auto
  with False show ?thesis
    by (simp add: toBaseString_def)
qed

text \<open>
  Claim C1, as stated, fails: the numbers of the language are doubles, and beyond
  \<open>2\<^sup>5\<^sup>3\<close> the loops round. In base 62 the integer 18014758797452172, which a double
  holds, is written \<^verbatim>\<open>1kvtVIGwRC\<close>, with no rounding on the way; reading it back,
  \<open>290560625765357 \<times> 62 = 18014758797452134\<close> is rounded to 18014758797452136 and, the
  last digit 38 added, 18014758797452174 is rounded to 18014758797452176.
\<close>

theorem roundtrip_counterexample:
  "Uzid_new opts_srv = Inr gen_srv \<and> base gen_srv = B62 \<and> (0::int) \<le> 18014758797452172 \<and>
   f64 18014758797452172 = Num 18014758797452172 \<and>
   toBaseString gen_srv 18014758797452172 B62 = ''1kvtVIGwRC'' \<and>
   fromBaseString gen_srv ''1kvtVIGwRC'' B62 = Inr (Num 18014758797452176) \<and>
   fromBaseString gen_srv (toBaseString gen_srv 18014758797452172 (base gen_srv)) (base gen_srv)
     \<noteq> Inr (Num 18014758797452172)"
proof -
  have b: "base gen_srv = B62"
    by (simp add: gen_srv_def)
  have l: "bitlen 18014758797452172 = 55" "bitlen 18014758797452134 = 55"
    "bitlen 18014758797452174 = 55" "bitlen 290560625765357 = 49"
    "bitlen 18014758797452136 = 55" "bitlen 18014758797452176 = 55"
    by (simp_all add: bitlen.simps)
  have r: "rne 18014758797452172 4 = 4503689699363043" "rne 18014758797452134 4 = 4503689699363034"
    "rne 18014758797452174 4 = 4503689699363044"
    "rne 288236140759234752 62 = 4648970012245722"
    by (simp_all add: rne_def Let_def)
  have d: "f64 18014758797452172 = Num 18014758797452172"
    "f64 18014758797452134 = Num 18014758797452136"
    "f64 18014758797452174 = Num 18014758797452176"
    unfolding f64_def Let_def by (simp_all add: l r)
  have q: "floor_div 18014758797452172 62 = 290560625765357"
    unfolding floor_div_def Let_def by (simp add: l r)
  have rest: "toBaseString_loop gen_srv B62 290560625765357 ''C'' = ''1kvtVIGwRC''"
    by (simp add: gen_srv_def encode_simps)
  have e: "toBaseString gen_srv 18014758797452172 B62 = ''1kvtVIGwRC''"
    unfolding toBaseString_def
    by (simp add: toBaseString_loop.simps [of gen_srv B62 18014758797452172] q rest [symmetric])
      (simp add: gen_srv_def char_at_def)
  have front: "fromBaseString_loop gen_srv B62 ''1kvtVIGwRC'' (Num 0) =
      fromBaseString_loop gen_srv B62 ''C'' (Num 290560625765357)"
    by (simp add: gen_srv_def mul_number_def add_number_def f64_small)
  have last: "fromBaseString_loop gen_srv B62 ''C'' (Num 290560625765357) =
      Inr (Num 18014758797452176)"
    by (simp add: gen_srv_def mul_number_def add_number_def d)
  have f: "fromBaseString gen_srv ''1kvtVIGwRC'' B62 = Inr (Num 18014758797452176)"
    by (simp add: fromBaseString_def front last del: fromBaseString_loop.simps)
  show ?thesis
    by (simp add: srv_built b d e f)
qed

text \<open>
  Claim C1, amended. For a generator that the constructor has built, of either base, and
  every integer \<open>v\<close> from 0 to \<open>2\<^sup>5\<^sup>3 - 1 = 9007199254740991\<close>, the safe integers of the
  language, among them every timestamp, decoding the encoding of \<open>v\<close> in the base of the
  generator gives \<open>v\<close> back, with no error and no \<^verbatim>\<open>NaN\<close>.
\<close>

theorem roundtrip:
  assumes "Uzid_new options = Inr g" and "0 \<le> v" and "v \<le> 9007199254740991"
  shows "fromBaseString g (toBaseString g v (base g)) (base g) = Inr (Num v)"
  using assms by (rule decode_encode)

theorem roundtrip_witness:
  "Uzid_new opts_srv = Inr gen_srv \<and> base gen_srv = B62 \<and>
   toBaseString gen_srv 1699999999991 B62 = ''tVCOKGz'' \<and>
   fromBaseString gen_srv ''tVCOKGz'' B62 = Inr (Num 1699999999991) \<and>
   Uzid_new opts_default = Inr gen_default \<and> base gen_default = B36 \<and>
   toBaseString gen_default 1700000000 B36 = ''s44we8'' \<and>
   fromBaseString gen_default ''s44we8'' B36 = Inr (Num 1700000000)"
proof -
  have b: "base gen_srv = B62" "base gen_default = B36"
    by (simp_all add: gen_srv_def gen_default_def)
  have e: "toBaseString gen_srv 1699999999991 B62 = ''tVCOKGz''"
    "toBaseString gen_default 1700000000 B36 = ''s44we8''"
    by (simp_all add: gen_srv_def gen_default_def encode_simps)
  have "(0::int) \<le> 1699999999991" "(1699999999991::int) \<le> 9007199254740991"
    "(0::int) \<le> 1700000000" "(1700000000::int) \<le> 9007199254740991"
    by simp_all
  from roundtrip [OF srv_built this(1,2)] roundtrip [OF default_built this(3,4)]
  show ?thesis
    by (simp add: b e srv_built default_built)
qed

text \<open>
  Claim C9. In base 36, whose digits are \<^verbatim>\<open>0-9a-z\<close>, the number 12345 is written
  \<^verbatim>\<open>9ix\<close>.
\<close>

theorem encode_12345: "toBaseString g 12345 B36 = ''9ix''"
  by (simp add: encode_simps)

theorem encode_12345_witness: "toBaseString gen_default 12345 (base gen_default) = ''9ix''"
  using encode_12345 [of gen_default] by (simp add: gen_default_def)

section \<open>Building and verifying an identifier\<close>

subsection \<open>The random suffix\<close>

lemma draws_ok_Math_random:
  "draws_ok w \<Longrightarrow> Math_random w = (r, w') \<Longrightarrow> 0 \<le> r \<and> r < 1 \<and> draws_ok w'"
  by (auto simp: draws_ok_def Math_random_def)

lemma draw_index:
  assumes "0 \<le> r" "r < 1" "0 < L"
  shows "nat \<lfloor>r * of_nat L\<rfloor> < L"
proof -
  have "r * of_nat L < of_nat L"
    using assms by simp
  then have "\<lfloor>r * of_nat L\<rfloor> < int L"
    by (simp add: floor_less_iff)
  moreover have "0 \<le> \<lfloor>r * of_nat L\<rfloor>"
    using assms by simp
  ultimately show ?thesis by linarith
qed

lemma random_loop_ok:
  "draws_ok w \<Longrightarrow> chars g \<noteq> [] \<Longrightarrow> i \<le> length_u g \<Longrightarrow> random_loop g i s w = (s', w') \<Longrightarrow>
     length s' = length s + (length_u g - i) \<and> set s' \<subseteq> set s \<union> set (chars g)"
proof (induction g i s w rule: random_loop.induct)
  case (1 g i s w)
  show ?case
  proof (cases "i < length_u g")
    case True
    obtain r w1 where mr: "Math_random w = (r, w1)"
      by (cases "Math_random w")
    from draws_ok_Math_random [OF "1.prems"(1) mr]
    have r: "0 \<le> r" "r < 1" and w1: "draws_ok w1" by auto
    let ?k = "nat \<lfloor>r * of_nat (length (chars g))\<rfloor>"
    have k: "?k < length (chars g)"
      using r "1.prems"(2) by (intro draw_index) auto
    let ?c = "char_at (chars g) ?k"
    have c: "?c = [chars g ! ?k]"
      using k by (simp add: char_at_def)
    have step: "random_loop g (Suc i) (s @ ?c) w1 = (s', w')"
      using "1.prems"(4) True mr by (subst (asm) random_loop.simps) simp
    have "length s' = length (s @ ?c) + (length_u g - Suc i) \<and>
          set s' \<subseteq> set (s @ ?c) \<union> set (chars g)"
      using "1.IH" [OF True mr [symmetric] w1 "1.prems"(2) _ step] True by simp
    then show ?thesis
      using True k by (auto simp: c)
  next
    case False
    with "1.prems"(4) have "s' = s"
      by (subst (asm) random_loop.simps) simp
    with False show ?thesis by simp
  qed
qed

lemma random_ok:
  assumes "draws_ok w" "chars g \<noteq> []" "random g w = (r, w')"
  shows "length r = length_u g" and "set r \<subseteq> set (chars g)"
  using random_loop_ok [OF assms(1,2) _ assms(3) [unfolded random_def]] by auto

subsection \<open>An identifier of the generator passes its own check\<close>

lemma verify_built:
  assumes g: "Uzid_new options = Inr g"
    and t: "0 \<le> t" "t * (if precision g = Some ''ms'' then 1 else 1000) \<le> 8640000000000000"
    and r: "length r = length_u g" "set r \<subseteq> set (chars g)"
  shows "verify g (prefix g @ toBaseString g t (base g) @ r)"
proof -
  let ?e = "toBaseString g t (base g)"
  have small: "t \<le> 8640000000000000"
  proof -
    have "t * 1 \<le> t * (if precision g = Some ''ms'' then 1 else 1000)"
      using t(1) by (intro mult_left_mono) simp_all
    with t(2) show ?thesis by simp
  qed
  have ne: "?e \<noteq> []"
    using t(1) by (rule toBaseString_not_Nil)
  have cs: "set ?e \<subseteq> set (chars g)"
    using g t(1) by (rule toBaseString_chars)
  have dec: "fromBaseString g ?e (base g) = Inr (Num t)"
    using g t(1) small by (intro decode_encode) simp_all
  have date: "validDate (mul_number (Num t) (if precision g = Some ''ms'' then 1 else 1000))"
    using t by (simp add: validDate_def mul_number_def f64_small)
  have sl: "slice_last (?e @ r) (length_u g) = r" "slice_but_last (?e @ r) (length_u g) = ?e"
    using r(1) by (simp_all add: slice_last_def slice_but_last_def)
  have r0: "length_u g = 0 \<Longrightarrow> r = []"
    using r(1) by simp
  show ?thesis
    unfolding verify_def Let_def
    using ne cs r dec sl r0 date
    by (auto simp: startsWith_def)
qed

lemma verify_single:
  assumes g: "Uzid_new options = Inr g"
    and c: "clock w 0 \<le> 8640000000000000"
    and d: "draws_ok w"
  shows "verify g (fst (single g w))"
proof -
  let ?k = "if precision g = Some ''ms'' then 1 else 1000 :: nat"
  let ?t = "int (clock w 0 div ?k)"
  obtain r w2 where rw: "random g (snd (Date_now w)) = (r, w2)"
    by (cases "random g (snd (Date_now w))")
  have d1: "draws_ok (snd (Date_now w))"
    using d by (simp add: draws_ok_def Date_now_def)
  have r: "length r = length_u g" "set r \<subseteq> set (chars g)"
    using random_ok [OF d1 Uzid_new_chars_not_Nil [OF g] rw] by auto
  have "clock w 0 < 9007199254740992"
    using c by simp
  then have fd: "floor_div (clock w 0) ?k = clock w 0 div ?k"
    by (intro floor_div_exact) simp_all
  have s: "fst (single g w) = prefix g @ toBaseString g ?t (base g) @ r"
    using rw by (simp add: single_def Date_now_def Let_def fd)
  have "clock w 0 div ?k * ?k \<le> clock w 0"
    by simp
  from this c have "clock w 0 div ?k * ?k \<le> 8640000000000000"
    by (rule order_trans)
  then have "int (clock w 0 div ?k * ?k) \<le> 8640000000000000"
    by (simp only: of_nat_le_iff [symmetric, where ?'a = int] of_nat_numeral)
  then have b: "?t * (if precision g = Some ''ms'' then 1 else 1000) \<le> 8640000000000000"
    by (simp split: if_splits)
  show ?thesis
    unfolding s using g _ b r by (rule verify_built) simp
qed

text \<open>
  Claim C2. For a generator \<open>g\<close> that the constructor has built (any prefix, either base,
  any length from 0 to 20, either precision), the identifier that \<^verbatim>\<open>single()\<close>, which is
  \<^verbatim>\<open>generate()\<close> without a count, returns passes \<^verbatim>\<open>g.verify\<close>, whatever the clock
  reads and whatever is drawn. The clock reads a time value: a number of milliseconds
  since the epoch, at most \<open>8.64 \<times> 10\<^sup>1\<^sup>5\<close>; a draw is a number from 0 to 1, 1 excluded.
\<close>

theorem self_verification:
  assumes "Uzid_new options = Inr g"
    and "clock w 0 \<le> 8640000000000000"
    and "draws_ok w"
  shows "verify g (fst (single g w)) \<and>
         generate g None w = Some (Inr (One (fst (single g w))), snd (single g w))"
  using verify_single [OF assms] by (simp add: generate_def case_prod_beta)

theorem self_verification_witness:
  "Uzid_new opts_srv = Inr gen_srv \<and> clock world_ms 0 \<le> 8640000000000000 \<and> draws_ok world_ms \<and>
   fst (single gen_srv world_ms) = ''srv1tVCOKGzvk'' \<and> verify gen_srv ''srv1tVCOKGzvk''"
proof -
  have c: "clock world_ms 0 \<le> 8640000000000000"
    by (simp add: world_ms_def)
  have s: "fst (single gen_srv world_ms) = ''srv1tVCOKGzvk''"
    by (simp add: single_simps gen_srv_def world_ms_def)
  from self_verification [OF srv_built c draws_ok_world_ms] show ?thesis
    by (simp add: s srv_built c draws_ok_world_ms)
qed

subsection \<open>A candidate with no timestamp\<close>

lemma empty_timestamp:
  assumes "1 \<le> length_u g" "length sfx = length_u g" "set sfx \<subseteq> set (chars g)"
  shows "verify g (prefix g @ sfx) = (base g = B62)"
proof -
  have "sfx \<noteq> []"
    using assms(1,2) by auto
  moreover have "fromBaseString g [] (base g) = (if base g = B62 then Inr (Num 0) else Inr NaN)"
    by (cases "base g") (simp_all add: fromBaseString_def parseInt36_def)
  ultimately show ?thesis
    using assms
    by (auto simp: verify_def startsWith_def slice_last_def slice_but_last_def Let_def
        validDate_def mul_number_def f64_small)
qed

text \<open>
  Claim C10. For a generator whose suffix length \<open>L\<close> is at least 1, a candidate made of
  the prefix and exactly \<open>L\<close> characters of the alphabet, so that nothing is left for the
  timestamp, is accepted when the base is 62, where the empty string decodes to 0, and
  refused when the base is 36, where \<^verbatim>\<open>parseInt\<close> gives \<^verbatim>\<open>NaN\<close>.
\<close>

theorem verify_empty_timestamp:
  assumes "1 \<le> length_u g" and "length sfx = length_u g" and "set sfx \<subseteq> set (chars g)"
  shows "(base g = B62 \<longrightarrow> verify g (prefix g @ sfx) \<and> fromBaseString g [] B62 = Inr (Num 0)) \<and>
         (base g = B36 \<longrightarrow> \<not> verify g (prefix g @ sfx) \<and> fromBaseString g [] B36 = Inr NaN)"
  using empty_timestamp [OF assms] by (auto simp: fromBaseString_def parseInt36_def)

theorem verify_empty_timestamp_witness:
  "Uzid_new opts_srv = Inr gen_srv \<and> base gen_srv = B62 \<and> verify gen_srv ''srv1vk'' \<and>
   Uzid_new opts_default = Inr gen_default \<and> base gen_default = B36 \<and> \<not> verify gen_default ''abcd''"
proof -
  have "1 \<le> length_u gen_srv" "length ''vk'' = length_u gen_srv" "set ''vk'' \<subseteq> set (chars gen_srv)"
    by (simp_all add: gen_srv_def)
  note a = verify_empty_timestamp [OF this]
  have "1 \<le> length_u gen_default" "length ''abcd'' = length_u gen_default"
    "set ''abcd'' \<subseteq> set (chars gen_default)"
    by (simp_all add: gen_default_def)
  note b = verify_empty_timestamp [OF this]
  from a b show ?thesis
    by (simp add: srv_built default_built) (simp add: gen_srv_def gen_default_def)
qed

subsection \<open>Identifiers of another generator\<close>

lemma startsWith_append:
  assumes "startsWith (p1 @ rest) p2"
  shows "startsWith p1 p2 \<or> startsWith p2 p1"
proof (cases "length p2 \<le> length p1")
  case True
  with assms show ?thesis
    by (simp add: startsWith_def)
next
  case False
  with assms have "p1 @ take (length p2 - length p1) rest = p2"
    by (simp add: startsWith_def)
  then have "take (length p1) p2 = p1"
    by (metis append_eq_conv_conj)
  then show ?thesis
    by (simp add: startsWith_def)
qed

lemma single_prefix: "\<exists>rest. fst (single g w) = prefix g @ rest"
  by (simp add: single_def Let_def case_prod_beta)

lemma cross_prefix:
  assumes "\<not> startsWith (prefix g1) (prefix g2)" "\<not> startsWith (prefix g2) (prefix g1)"
  shows "\<not> verify g2 (fst (single g1 w))"
proof -
  obtain rest where r: "fst (single g1 w) = prefix g1 @ rest"
    using single_prefix by blast
  have "\<not> startsWith (prefix g1 @ rest) (prefix g2)"
    using assms startsWith_append by blast
  then show ?thesis
    by (simp add: verify_def r)
qed

lemma ab_built: "Uzid_new (opts_default\<lparr>opt_prefix := Some ''ab''\<rparr>) = Inr gen_ab"
  by (simp add: build_simps opts_default_def gen_ab_def gen_default_def)

lemma a_built: "Uzid_new (opts_default\<lparr>opt_prefix := Some ''a''\<rparr>) = Inr gen_a"
  by (simp add: build_simps opts_default_def gen_a_def gen_default_def)

text \<open>
  Claim C7, as stated, fails: the generators with the prefixes \<^verbatim>\<open>ab\<close> and \<^verbatim>\<open>a\<close> have
  different non-empty prefixes, and the second accepts an identifier of the first, reading
  the \<^verbatim>\<open>b\<close> as a digit of the timestamp.
\<close>

theorem cross_prefix_counterexample:
  "Uzid_new (opts_default\<lparr>opt_prefix := Some ''ab''\<rparr>) = Inr gen_ab \<and>
   Uzid_new (opts_default\<lparr>opt_prefix := Some ''a''\<rparr>) = Inr gen_a \<and>
   prefix gen_ab \<noteq> prefix gen_a \<and> prefix gen_ab \<noteq> [] \<and> prefix gen_a \<noteq> [] \<and>
   fst (single gen_ab world_ms) = ''abs44we7ic97'' \<and>
   verify gen_a (fst (single gen_ab world_ms))"
proof -
  have s: "fst (single gen_ab world_ms) = ''abs44we7ic97''"
    by (simp add: single_simps gen_ab_def gen_default_def world_ms_def)
  have v: "verify gen_a ''abs44we7ic97''"
    by (simp add: verify_simps gen_a_def gen_default_def)
  show ?thesis
    by (simp add: ab_built a_built s v) (simp add: gen_ab_def gen_a_def gen_default_def)
qed

text \<open>
  Claim C7, amended. When neither prefix is an initial segment of the other (so that
  both are non-empty and they differ), \<^verbatim>\<open>g2.verify(g1.generate())\<close> is false, for every
  clock value, every draw and every other setting of the two generators.
\<close>

theorem cross_prefix_rejection:
  assumes "\<not> startsWith (prefix g1) (prefix g2)" and "\<not> startsWith (prefix g2) (prefix g1)"
  shows "\<not> verify g2 (fst (single g1 w))"
  using assms by (rule cross_prefix)

theorem cross_prefix_rejection_witness:
  "\<not> startsWith (prefix gen_test) (prefix gen_wrong) \<and>
   \<not> startsWith (prefix gen_wrong) (prefix gen_test) \<and>
   fst (single gen_test world_ms) = ''tests44we7ic97'' \<and>
   \<not> verify gen_wrong (fst (single gen_test world_ms))"
proof -
  have p: "\<not> startsWith (prefix gen_test) (prefix gen_wrong)"
    "\<not> startsWith (prefix gen_wrong) (prefix gen_test)"
    by (simp_all add: startsWith_def gen_test_def gen_wrong_def)
  have s: "fst (single gen_test world_ms) = ''tests44we7ic97''"
    by (simp add: single_simps gen_test_def gen_default_def world_ms_def)
  from cross_prefix_rejection [OF p, of world_ms] show ?thesis
    by (simp add: p s)
qed

section \<open>The constructor's checks\<close>

lemma precision_check:
  "(Uzid_new options = Inl InvalidPrecision) =
     (\<exists>s. opt_precision options = Some s \<and> s \<noteq> [] \<and> s \<noteq> ''ms'')"
  by (auto simp: Uzid_new_def Let_def split: option.splits if_splits)

lemma precision_kept: "Uzid_new options = Inr g \<Longrightarrow> precision g = opt_precision options"
  by (auto simp: Uzid_new_def Let_def split: if_splits)

lemma base_check:
  assumes "truthy (opt_base options)" "opt_base options \<noteq> JNumber 36"
    "opt_base options \<noteq> JNumber 62"
  shows "Uzid_new options =
     Inl (if \<exists>s. opt_precision options = Some s \<and> s \<noteq> [] \<and> s \<noteq> ''ms''
          then InvalidPrecision else InvalidBase)"
  using assms by (auto simp: Uzid_new_def Let_def split: option.splits)

lemma base_falsy:
  assumes "\<not> truthy (opt_base options)"
  shows "Uzid_new options = Uzid_new (options\<lparr>opt_base := JNumber 36\<rparr>)"
  using assms by (simp add: Uzid_new_def Let_def)

text \<open>
  Claim C5, as stated, fails. A precision given as \<^verbatim>\<open>"s"\<close>, which is how the comment on
  the option names the seconds, is refused; and a value outside the two names, the empty
  string, is let through and gives a generator that counts seconds.
\<close>

theorem precision_counterexample:
  "Uzid_new (opts_default\<lparr>opt_precision := Some ''s''\<rparr>) = Inl InvalidPrecision \<and>
   Uzid_new (opts_default\<lparr>opt_precision := Some ''''\<rparr>) = Inr (gen_default\<lparr>precision := Some ''''\<rparr>)"
  by (simp add: build_simps opts_default_def gen_default_def)

text \<open>
  Claim C5, amended. The constructor fails with \<^verbatim>\<open>InvalidPrecision\<close> exactly when a
  precision is given that is neither \<^verbatim>\<open>"ms"\<close> nor the empty string; a generator that is
  built keeps the option as it was given. So \<^verbatim>\<open>"ms"\<close> is the one precision that can be
  named, and the seconds are chosen by leaving the option out.
\<close>

theorem precision_validation:
  "((Uzid_new options = Inl InvalidPrecision) =
      (\<exists>s. opt_precision options = Some s \<and> s \<noteq> [] \<and> s \<noteq> ''ms'')) \<and>
   (\<forall>g. Uzid_new options = Inr g \<longrightarrow> precision g = opt_precision options)"
  by (simp add: precision_check precision_kept)

theorem precision_validation_witness:
  "Uzid_new opts_srv = Inr gen_srv \<and> opt_precision opts_srv = Some ''ms'' \<and>
   precision gen_srv = Some ''ms'' \<and>
   Uzid_new (opts_default\<lparr>opt_precision := Some ''hour''\<rparr>) = Inl InvalidPrecision \<and>
   Uzid_new opts_default = Inr gen_default \<and> precision gen_default = None"
proof -
  have "\<exists>s. opt_precision (opts_default\<lparr>opt_precision := Some ''hour''\<rparr>) = Some s \<and>
          s \<noteq> [] \<and> s \<noteq> ''ms''"
    by simp
  with precision_validation [of "opts_default\<lparr>opt_precision := Some ''hour''\<rparr>"]
  have h: "Uzid_new (opts_default\<lparr>opt_precision := Some ''hour''\<rparr>) = Inl InvalidPrecision"
    by blast
  from precision_validation [of opts_srv] srv_built
  have "precision gen_srv = opt_precision opts_srv"
    by blast
  with h show ?thesis
    by (simp add: srv_built default_built) (simp add: opts_srv_def gen_default_def)
qed

text \<open>
  Claim C6, as stated, fails: the bases 0 and \<^verbatim>\<open>NaN\<close> are falsy, the default replaces
  them, and a generator of base 36 is built.
\<close>

theorem base_counterexample:
  "Uzid_new (opts_default\<lparr>opt_base := JNumber 0\<rparr>) = Inr gen_default \<and>
   Uzid_new (opts_default\<lparr>opt_base := JNaN\<rparr>) = Inr gen_default"
  by (simp add: build_simps opts_default_def gen_default_def)

text \<open>
  Claim C6, amended. For every base given to the constructor that is truthy and is not
  the number 36 or the number 62, construction fails and no generator is built; the
  error is \<^verbatim>\<open>InvalidBase\<close>, unless the precision, which is checked first, is refused.
  Every falsy base (0, \<^verbatim>\<open>NaN\<close>, and \<^verbatim>\<open>null\<close>, \<^verbatim>\<open>false\<close>, the empty string, \<^verbatim>\<open>0n\<close>) is
  taken for an absent one: the constructor does what it does for base 36.
\<close>

theorem base_validation:
  "(truthy (opt_base options) \<and> opt_base options \<noteq> JNumber 36 \<and> opt_base options \<noteq> JNumber 62 \<longrightarrow>
      (\<forall>g. Uzid_new options \<noteq> Inr g) \<and>
      Uzid_new options =
        Inl (if \<exists>s. opt_precision options = Some s \<and> s \<noteq> [] \<and> s \<noteq> ''ms''
             then InvalidPrecision else InvalidBase)) \<and>
   (\<not> truthy (opt_base options) \<longrightarrow>
      Uzid_new options = Uzid_new (options\<lparr>opt_base := JNumber 36\<rparr>))"
  using base_check [of options] base_falsy [of options] by simp

theorem base_validation_witness:
  "Uzid_new (opts_default\<lparr>opt_base := JNumber 16\<rparr>) = Inl InvalidBase \<and>
   Uzid_new (opts_default\<lparr>opt_base := JNumber (73 / 2)\<rparr>) = Inl InvalidBase \<and>
   Uzid_new (opts_default\<lparr>opt_base := JString ''36''\<rparr>) = Inl InvalidBase \<and>
   Uzid_new (opts_default\<lparr>opt_base := JInfinity\<rparr>) = Inl InvalidBase \<and>
   Uzid_new (opts_default\<lparr>opt_base := JNaN\<rparr>) =
     Uzid_new (opts_default\<lparr>opt_base := JNumber 36\<rparr>) \<and>
   Uzid_new (opts_default\<lparr>opt_base := JNumber 36\<rparr>) = Inr gen_default"
proof -
  have p: "opt_precision opts_default = None"
    by (simp add: opts_default_def)
  have g: "Uzid_new (opts_default\<lparr>opt_base := JNumber 36\<rparr>) = Inr gen_default"
    by (simp add: build_simps opts_default_def gen_default_def)
  from base_validation [of "opts_default\<lparr>opt_base := JNumber 16\<rparr>"]
    base_validation [of "opts_default\<lparr>opt_base := JNumber (73 / 2)\<rparr>"]
    base_validation [of "opts_default\<lparr>opt_base := JString ''36''\<rparr>"]
    base_validation [of "opts_default\<lparr>opt_base := JInfinity\<rparr>"]
    base_validation [of "opts_default\<lparr>opt_base := JNaN\<rparr>"]
  show ?thesis
    by (simp add: p g)
qed

section \<open>Batches\<close>

subsection \<open>The count\<close>

lemma isInteger_Ints: "isInteger x \<longleftrightarrow> x \<in> \<int>"
  by (auto simp: isInteger_def Ints_def intro: sym)

lemma count_check:
  "(\<exists>e w'. multiple g count w = Some (Inl e, w')) = (count \<notin> \<int> \<or> count < 2)"
  "count \<notin> \<int> \<or> count < 2 \<Longrightarrow> multiple g count w = Some (Inl InvalidCount, w)"
  "(\<exists>e w'. generate g (Some count) w = Some (Inl e, w')) = (count \<notin> \<int> \<or> count < 2)"
  "count \<notin> \<int> \<or> count < 2 \<Longrightarrow> generate g (Some count) w = Some (Inl InvalidCount, w)"
  by (auto simp: multiple_def generate_def isInteger_Ints split: option.splits prod.splits sum.splits)

text \<open>
  Claim C8. \<^verbatim>\<open>multiple(count)\<close> and \<^verbatim>\<open>generate(count)\<close> throw if and only if the count is
  not an integer or is less than 2; what they throw then is \<^verbatim>\<open>InvalidCount\<close>, and the
  world is as it was: the clock has not been read, nothing has been drawn, no identifier
  exists.
\<close>

theorem count_validation:
  "((\<exists>e w'. multiple g count w = Some (Inl e, w')) = (count \<notin> \<int> \<or> count < 2)) \<and>
   ((\<exists>e w'. generate g (Some count) w = Some (Inl e, w')) = (count \<notin> \<int> \<or> count < 2)) \<and>
   (count \<notin> \<int> \<or> count < 2 \<longrightarrow>
      multiple g count w = Some (Inl InvalidCount, w) \<and>
      generate g (Some count) w = Some (Inl InvalidCount, w))"
  by (simp add: count_check)

theorem count_validation_witness:
  "multiple gen_default 1 world_ms = Some (Inl InvalidCount, world_ms) \<and>
   generate gen_default (Some 1) world_ms = Some (Inl InvalidCount, world_ms) \<and>
   multiple gen_default (5 / 2) world_ms = Some (Inl InvalidCount, world_ms) \<and>
   generate gen_default (Some (5 / 2)) world_ms = Some (Inl InvalidCount, world_ms) \<and>
   (\<nexists>e w'. multiple gen_default 2 world_ms = Some (Inl e, w'))"
proof -
  have a: "(1::real) \<notin> \<int> \<or> (1::real) < 2"
    by simp
  have "\<not> isInteger (5 / 2)"
    by (simp add: isInteger_def)
  then have b: "(5 / 2 :: real) \<notin> \<int> \<or> (5 / 2 :: real) < 2"
    by (simp add: isInteger_Ints)
  have c: "\<not> ((2::real) \<notin> \<int> \<or> (2::real) < 2)"
    by simp
  from count_validation [of gen_default 1 world_ms] a
    count_validation [of gen_default "5 / 2" world_ms] b
    count_validation [of gen_default 2 world_ms] c
  show ?thesis
    by blast
qed

subsection \<open>The digits of a timestamp grow with it\<close>




subsection \<open>What one call of \<^verbatim>\<open>single\<close> does to the world\<close>

lemma random_loop_clock: "clock (snd (random_loop g i s w)) = clock w"
proof (induction g i s w rule: random_loop.induct)
  case (1 g i s w)
  show ?case
  proof (cases "i < length_u g")
    case True
    obtain r w1 where mr: "Math_random w = (r, w1)"
      by (cases "Math_random w")
    then have "clock w1 = clock w"
      by (auto simp: Math_random_def)
    with "1.IH" [OF True mr [symmetric]] True mr show ?thesis
      by (subst random_loop.simps) simp
  next
    case False
    then show ?thesis
      by (subst random_loop.simps) simp
  qed
qed

lemma single_clock: "clock (snd (single g w)) = (\<lambda>i. clock w (Suc i))"
proof -
  obtain r w2 where rw: "random g (snd (Date_now w)) = (r, w2)"
    by (cases "random g (snd (Date_now w))")
  have "clock w2 = clock (snd (Date_now w))"
    using random_loop_clock [of g 0 "[]" "snd (Date_now w)"] rw by (simp add: random_def)
  then show ?thesis
    using rw by (simp add: single_def Date_now_def Let_def)
qed




subsection \<open>The loop of \<^verbatim>\<open>multiple\<close> ends\<close>









subsection \<open>Without the passing of time\<close>

text \<open>
  The assumption on the clock cannot be dropped: with no suffix, a clock that stands
  still gives the same identifier at every turn, and the loop of \<^verbatim>\<open>multiple(2)\<close> never
  ends.
\<close>

lemma single_frozen:
  assumes "length_u g = 0" "\<forall>i. clock w i = T"
  shows "snd (single g w) = w"
proof -
  have "(\<lambda>i. clock w (Suc i)) = clock w"
    using assms(2) by auto
  then have "snd (Date_now w) = w"
    by (simp add: Date_now_def)
  moreover have "random g w = ([], w)"
    using assms(1) by (simp add: random_def random_loop.simps)
  ultimately show ?thesis
    by (simp add: single_def Let_def Date_now_def)
qed

lemma multiple_loop_frozen:
  assumes g: "length_u g = 0" and w: "\<forall>i. clock w i = T" and c: "2 \<le> count"
    and ids: "distinct ids" "set ids \<subseteq> {fst (single g w)}"
  shows "multiple_loop g count ids w = None"
proof -
  let ?x = "fst (single g w)"
  let ?P = "\<lambda>g' c' ids' w' (y :: string list \<times> world).
      \<not> (g' = g \<and> c' = count \<and> w' = w \<and> distinct ids' \<and> set ids' \<subseteq> {?x})"
  have never: "?P g' c' ids' w' y" if r: "multiple_loop g' c' ids' w' = Some y" for g' c' ids' w' y
  proof (rule multiple_loop.raw_induct [where P = ?P, OF _ r])
    fix f g' c' ids' w' y
    assume IH: "\<And>g' c' ids' w' y. f g' c' ids' w' = Some y \<Longrightarrow> ?P g' c' ids' w' y"
      and body: "(if of_nat (length ids') < c'
                  then case single g' w' of (x, w'') \<Rightarrow> f g' c' (set_add ids' x) w''
                  else Some (ids', w')) = Some y"
    show "?P g' c' ids' w' y"
    proof
      assume a: "g' = g \<and> c' = count \<and> w' = w \<and> distinct ids' \<and> set ids' \<subseteq> {?x}"
      then have "length ids' \<le> 1"
        by (cases ids'; cases "tl ids'") auto
      with c a have lt: "of_nat (length ids') < c'"
        by simp
      from body lt a have "f g count (set_add ids' ?x) (snd (single g w)) = Some y"
        by (simp add: case_prod_beta)
      then have "f g count (set_add ids' ?x) w = Some y"
        by (simp only: single_frozen [OF g w])
      moreover have "distinct (set_add ids' ?x)" "set (set_add ids' ?x) \<subseteq> {?x}"
        using a by (auto simp: set_add_def split: if_splits)
      ultimately show False
        using IH by blast
    qed
  qed
  show ?thesis
  proof (cases "multiple_loop g count ids w")
    case None
    then show ?thesis .
  next
    case (Some y)
    from never [OF this] ids show ?thesis
      by simp
  qed
qed

lemma multiple_frozen:
  assumes "length_u g = 0" "\<forall>i. clock w i = T"
  shows "multiple g 2 w = None"
  using multiple_loop_frozen [OF assms, of 2 "[]"] by (simp add: multiple_def isInteger_def)

section \<open>Order in time\<close>

lemma less_append_same_length:
  "xs < ys \<Longrightarrow> length xs = length ys \<Longrightarrow> xs @ us < ys @ (vs :: string)"
proof (induction xs arbitrary: ys)
  case Nil
  then show ?case by simp
next
  case (Cons x xs)
  then show ?case
    by (cases ys) auto
qed

lemma less_same_prefix: "zs @ xs < zs @ ys \<longleftrightarrow> xs < (ys :: string)"
  by (induction zs) auto

lemma digits36_increasing: "sorted_wrt (<) digits36"
  by (simp add: digits36_def)

lemma digits36_nth_less: "i < j \<Longrightarrow> j < 36 \<Longrightarrow> digits36 ! i < digits36 ! j"
  using digits36_increasing by (simp add: sorted_wrt_nth_less length_digits36)

lemma toString36_nat_length_1: "length (toString36_nat n) = 1 \<longleftrightarrow> n < 36"
  using toString36_nat_not_Nil [of "n div 36"]
  by (subst toString36_nat.simps) simp

lemma toString36_nat_less:
  "m < n \<Longrightarrow> length (toString36_nat m) = length (toString36_nat n) \<Longrightarrow>
     toString36_nat m < toString36_nat n"
proof (induction n arbitrary: m rule: toString36_nat.induct)
  case (1 n)
  show ?case
  proof (cases "n < 36")
    case True
    with "1.prems"(1) have "m < 36" by simp
    with True "1.prems"(1) show ?thesis
      by (simp add: toString36_nat.simps [of m] toString36_nat.simps [of n] digits36_nth_less)
  next
    case False
    with "1.prems"(2) have m: "\<not> m < 36"
      by (simp add: toString36_nat_length_1 [symmetric])
    have em: "toString36_nat m = toString36_nat (m div 36) @ [digits36 ! (m mod 36)]"
      using m by (subst toString36_nat.simps) simp
    have en: "toString36_nat n = toString36_nat (n div 36) @ [digits36 ! (n mod 36)]"
      using False by (subst toString36_nat.simps) simp
    have len: "length (toString36_nat (m div 36)) = length (toString36_nat (n div 36))"
      using "1.prems"(2) by (simp add: em en)
    have le: "m div 36 \<le> n div 36"
      using "1.prems"(1) by (simp add: div_le_mono)
    show ?thesis
    proof (cases "m div 36 < n div 36")
      case True
      from "1.IH" [OF False True len] len show ?thesis
        unfolding em en by (rule less_append_same_length)
    next
      case False
      with le have eq: "m div 36 = n div 36" by simp
      then have "m mod 36 < n mod 36"
        using "1.prems"(1) by (metis div_mult_mod_eq add_less_cancel_left)
      then show ?thesis
        unfolding em en eq by (simp add: less_same_prefix digits36_nth_less)
    qed
  qed
qed

text \<open>
  In base 36 the digits are in the order of their code units, and a later timestamp of
  the same number of digits gives the greater identifier, whatever the suffixes.
\<close>

lemma sortable_base36:
  assumes b: "base g = B36"
    and t: "0 \<le> t1" "t1 < t2"
    and l: "length (toBaseString g t1 (base g)) = length (toBaseString g t2 (base g))"
  shows "prefix g @ toBaseString g t1 (base g) @ r1 < prefix g @ toBaseString g t2 (base g) @ r2"
proof -
  have "toString36_nat (nat t1) < toString36_nat (nat t2)"
    using t l b by (intro toString36_nat_less) (simp_all add: toBaseString_def toString36_def)
  then have "toBaseString g t1 (base g) < toBaseString g t2 (base g)"
    using t b by (simp add: toBaseString_def toString36_def)
  then have "toBaseString g t1 (base g) @ r1 < toBaseString g t2 (base g) @ r2"
    using l by (rule less_append_same_length)
  then show ?thesis
    by (simp only: less_same_prefix)
qed

text \<open>
  Claim C4 holds in base 36 (\<open>sortable_base36\<close>) and is what the documentation of the
  library promises, but the code of base 62 does not keep it: its alphabet puts the
  lower-case letters, digits 10 to 35, before the upper-case ones, digits 36 to 61, whose
  code units are smaller. With the precision \<^verbatim>\<open>"ms"\<close>, the timestamps 1699999999991 and
  1699999999992 have seven digits each, ending in \<^verbatim>\<open>z\<close> and in \<^verbatim>\<open>A\<close>, and the later
  identifier is the smaller string.
\<close>

theorem sortability_base62_failure:
  "Uzid_new opts_srv = Inr gen_srv \<and> base gen_srv = B62 \<and> precision gen_srv = Some ''ms'' \<and>
   clock world_ms 0 = 1699999999991 \<and> clock (snd (single gen_srv world_ms)) 0 = 1699999999992 \<and>
   toBaseString gen_srv 1699999999991 B62 = ''tVCOKGz'' \<and>
   toBaseString gen_srv 1699999999992 B62 = ''tVCOKGA'' \<and>
   fst (single gen_srv world_ms) = ''srv1tVCOKGzvk'' \<and>
   fst (single gen_srv (snd (single gen_srv world_ms))) = ''srv1tVCOKGAfc'' \<and>
   fst (single gen_srv (snd (single gen_srv world_ms))) < fst (single gen_srv world_ms)"
proof -
  have e: "toBaseString gen_srv 1699999999991 B62 = ''tVCOKGz''"
    "toBaseString gen_srv 1699999999992 B62 = ''tVCOKGA''"
    by (simp_all add: gen_srv_def encode_simps)
  have s1: "fst (single gen_srv world_ms) = ''srv1tVCOKGzvk''"
    by (simp add: single_simps gen_srv_def world_ms_def)
  have s2: "fst (single gen_srv (snd (single gen_srv world_ms))) = ''srv1tVCOKGAfc''"
    by (simp add: single_simps gen_srv_def world_ms_def)
  have c: "clock world_ms 0 = 1699999999991" "clock (snd (single gen_srv world_ms)) 0 = 1699999999992"
    by (simp_all add: single_clock) (simp_all add: world_ms_def)
  show ?thesis
    unfolding s1 s2 by (simp add: srv_built e c) (simp add: gen_srv_def)
qed

theorem sortability_base62_failure_witness:
  "(1699999999991::nat) < 1699999999992 \<and>
   length ''tVCOKGz'' = length ''tVCOKGA'' \<and>
   \<not> fst (single gen_srv world_ms) < fst (single gen_srv (snd (single gen_srv world_ms)))"
  using sortability_base62_failure by simp

end
